theory Spec2Isabelle
  imports Main "HOL-Library.Sublist"
begin

section \<open>Zip renderer: from the flat entry list to the object tree\<close>

text \<open>
  The theory embeds \<^verbatim>\<open>mfr/extensions/zip/render.py\<close>: the sanitizer
  \<^verbatim>\<open>sanitize_obj_list\<close>, the sibling search \<^verbatim>\<open>find_node_among_siblings\<close>, the
  attribute update \<^verbatim>\<open>update_node_with_attributes\<close>, the icon probe \<^verbatim>\<open>icon_exists\<close> and
  the fold \<^verbatim>\<open>obj_list_to_tree\<close>. Python strings are modelled as \<^typ>\<open>string\<close>, Python
  integers as \<^typ>\<open>int\<close>, exceptions as the left summand of a result type. The tree is a
  tree of dictionaries that the fold changes in place; no node is shared between two
  parents, so the model passes the tree along and returns it changed. The standard
  library functions the renderer calls (\<^verbatim>\<open>str.split\<close>, \<^verbatim>\<open>str.lower\<close>,
  \<^verbatim>\<open>os.path.splitext\<close>, \<^verbatim>\<open>os.path.join\<close>, the \<^verbatim>\<open>%\<close> formatting) are modelled after
  their POSIX behaviour, on ASCII text.
\<close>

subsection \<open>Data\<close>

text \<open>
  A \<^verbatim>\<open>ZipInfo\<close> as far as the renderer reads it: \<^verbatim>\<open>filename\<close>, the first six
  components of \<^verbatim>\<open>date_time\<close>, and \<^verbatim>\<open>file_size\<close>.
\<close>

record ZipInfo =
  filename :: string
  date_time :: "int \<times> int \<times> int \<times> int \<times> int \<times> int"
  file_size :: int

text \<open>
  A tree node is a Python dictionary with the keys \<^verbatim>\<open>'text'\<close> and \<^verbatim>\<open>'children'\<close>,
  and, once set, \<^verbatim>\<open>'icon'\<close> and \<^verbatim>\<open>'data'\<close> (itself the dictionary of \<^verbatim>\<open>'date'\<close>
  and \<^verbatim>\<open>'size'\<close>, here a pair in that order). A key that is absent is \<open>None\<close>. The
  selector for \<^verbatim>\<open>'text'\<close> is \<open>node_text\<close>.
\<close>

datatype node =
  Node (node_text: string) (icon: "string option") (data: "(string \<times> string) option")
       (children: "node list")

text \<open>
  What the renderer object and its surroundings provide: \<^verbatim>\<open>self.metadata.name\<close>,
  \<^verbatim>\<open>self.metadata.ext\<close>, \<^verbatim>\<open>self.assets_url\<close>, the directory of the module
  (\<^verbatim>\<open>os.path.dirname(__file__)\<close>), the file system probe \<^verbatim>\<open>os.path.isfile\<close> and
  \<^verbatim>\<open>mfr.core.utils.sizeof_fmt\<close>. The last three are taken as parameters.
\<close>

record renderer =
  metadata_name :: string
  metadata_ext :: string
  assets_url :: string
  module_dir :: string
  isfile :: "string \<Rightarrow> bool"
  sizeof_fmt :: "int \<Rightarrow> string"

datatype error = IndexError | AssertionError

subsection \<open>Python string operations\<close>

definition startswith :: "string \<Rightarrow> string \<Rightarrow> bool" where
  "startswith s p = (take (length p) s = p)"

definition endswith :: "string \<Rightarrow> string \<Rightarrow> bool" where
  "endswith s p = (length p \<le> length s \<and> drop (length s - length p) s = p)"

text \<open>\<^verbatim>\<open>s.split(c)\<close>: every occurrence of the separator cuts, empty pieces are kept.\<close>

fun split :: "char \<Rightarrow> string \<Rightarrow> string list" where
  "split c [] = [[]]"
| "split c (x # xs) =
     (if x = c then [] # split c xs
      else (case split c xs of [] \<Rightarrow> [[x]] | w # ws \<Rightarrow> (x # w) # ws))"

text \<open>\<^verbatim>\<open>s.lower()\<close> on ASCII text: the letters A to Z are mapped, every other character stays.\<close>

definition lower_char :: "char \<Rightarrow> char" where
  "lower_char c =
     (case map_of (zip ''ABCDEFGHIJKLMNOPQRSTUVWXYZ'' ''abcdefghijklmnopqrstuvwxyz'') c of
        None \<Rightarrow> c | Some l \<Rightarrow> l)"

definition lower :: "string \<Rightarrow> string" where
  "lower s = map lower_char s"

text \<open>\<^verbatim>\<open>s.lstrip('.')\<close>.\<close>

definition lstrip_dot :: "string \<Rightarrow> string" where
  "lstrip_dot s = dropWhile (\<lambda>c. c = CHR ''.'') s"

text \<open>\<^verbatim>\<open>s.rfind(c)\<close>: the highest index of \<open>c\<close> in \<open>s\<close>, and \<open>-1\<close> when there is none.\<close>

definition rfind :: "string \<Rightarrow> char \<Rightarrow> int" where
  "rfind s c =
     (if c \<in> set s then int (length s) - 1 - int (length (takeWhile (\<lambda>x. x \<noteq> c) (rev s)))
      else - 1)"

text \<open>
  \<^verbatim>\<open>os.path.splitext\<close> of \<^verbatim>\<open>posixpath\<close>: the last dot counts only when it lies behind the
  last slash, and only when some character between that slash and the dot is not a dot
  (the loop that skips the leading dots of the base name).
\<close>

definition splitext :: "string \<Rightarrow> string \<times> string" where
  "splitext p =
     (let sepIndex = rfind p CHR ''/'';
          dotIndex = rfind p CHR ''.''
      in if dotIndex > sepIndex \<and>
            list_ex (\<lambda>x. x \<noteq> CHR ''.'')
              (take (nat (dotIndex - (sepIndex + 1))) (drop (nat (sepIndex + 1)) p))
         then (take (nat dotIndex) p, drop (nat dotIndex) p)
         else (p, []))"

text \<open>\<^verbatim>\<open>os.path.join\<close> of \<^verbatim>\<open>posixpath\<close>, one component at a time.\<close>

definition join2 :: "string \<Rightarrow> string \<Rightarrow> string" where
  "join2 path b =
     (if startswith b ''/'' then b
      else if path = [] \<or> endswith path ''/'' then path @ b
      else path @ ''/'' @ b)"

definition os_path_join :: "string \<Rightarrow> string list \<Rightarrow> string" where
  "os_path_join a ps = foldl join2 a ps"

subsection \<open>Python number formatting\<close>

definition digit_char :: "nat \<Rightarrow> char" where
  "digit_char d = ''0123456789'' ! (d mod 10)"

text \<open>The decimal digits of a natural number, without leading zeros.\<close>

fun str_nat :: "nat \<Rightarrow> string" where
  "str_nat n = (if n < 10 then [digit_char n] else str_nat (n div 10) @ [digit_char n])"

declare str_nat.simps [simp del]

text \<open>\<^verbatim>\<open>'%d' % n\<close>.\<close>

definition fmt_d :: "int \<Rightarrow> string" where
  "fmt_d n = (if n < 0 then CHR ''-'' # str_nat (nat (- n)) else str_nat (nat n))"

text \<open>
  \<^verbatim>\<open>'%02d' % n\<close>: the minimum width 2 counts the sign, the padding zeros follow the sign.
\<close>

definition fmt_02d :: "int \<Rightarrow> string" where
  "fmt_02d n =
     (let s = fmt_d n
      in if n < 0 then CHR ''-'' # replicate (2 - length s) CHR ''0'' @ tl s
         else replicate (2 - length s) CHR ''0'' @ s)"

subsection \<open>The renderer's functions\<close>

text \<open>\<^verbatim>\<open>find_node_among_siblings\<close>: the first sibling whose \<^verbatim>\<open>'text'\<close> is the segment.\<close>

fun find_node_among_siblings :: "string \<Rightarrow> node list \<Rightarrow> node option" where
  "find_node_among_siblings segment [] = None"
| "find_node_among_siblings segment (sibling # siblings) =
     (if node_text sibling = segment then Some sibling
      else find_node_among_siblings segment siblings)"

text \<open>\<^verbatim>\<open>icon_exists\<close>.\<close>

definition icon_exists :: "renderer \<Rightarrow> string \<Rightarrow> bool" where
  "icon_exists self ext =
     isfile self
       (os_path_join (module_dir self)
          [''static'', ''img'', ''file-ext-'' @ lower ext @ ''.png''])"

text \<open>
  \<^verbatim>\<open>update_node_with_attributes\<close>: \<^verbatim>\<open>node.update\<close> sets \<^verbatim>\<open>'icon'\<close> and \<^verbatim>\<open>'data'\<close> and
  leaves \<^verbatim>\<open>'text'\<close> and \<^verbatim>\<open>'children'\<close> as they are.
\<close>

definition format_date :: "int \<times> int \<times> int \<times> int \<times> int \<times> int \<Rightarrow> string" where
  "format_date t =
     (case t of (y, mo, d, h, mi, s) \<Rightarrow>
        fmt_d y @ ''-'' @ fmt_02d mo @ ''-'' @ fmt_02d d @ '' '' @
        fmt_02d h @ '':'' @ fmt_02d mi @ '':'' @ fmt_02d s)"

definition update_node_with_attributes :: "renderer \<Rightarrow> node \<Rightarrow> ZipInfo \<Rightarrow> bool \<Rightarrow> node" where
  "update_node_with_attributes self node obj is_folder =
     (let date = format_date (date_time obj);
          size = (if file_size obj \<noteq> 0 then sizeof_fmt self (file_size obj) else []);
          icon_path =
            (if is_folder then assets_url self @ ''/img/folder.png''
             else (let ext = lower (lstrip_dot (snd (splitext (filename obj))))
                   in if icon_exists self ext
                      then assets_url self @ ''/img/file-ext-'' @ ext @ ''.png''
                      else assets_url self @ ''/img/file-ext-generic.png''))
      in Node (node_text node) (Some icon_path) (Some (date, size)) (children node))"

text \<open>
  The node found by \<^verbatim>\<open>find_node_among_siblings\<close> is changed in place; in the model the
  first sibling with that text is replaced by its new value.
\<close>

fun replace_sibling :: "string \<Rightarrow> node \<Rightarrow> node list \<Rightarrow> node list" where
  "replace_sibling segment new [] = []"
| "replace_sibling segment new (sibling # siblings) =
     (if node_text sibling = segment then new # siblings
      else sibling # replace_sibling segment new siblings)"

definition set_children :: "node \<Rightarrow> node list \<Rightarrow> node" where
  "set_children n cs = Node (node_text n) (icon n) (data n) cs"

text \<open>
  The inner loop of \<^verbatim>\<open>obj_list_to_tree\<close> over \<^verbatim>\<open>enumerate(path_segments)\<close>, started at
  \<open>parent\<close>; the result is \<open>parent\<close> after the loop. The segment at hand is the last one
  (\<^verbatim>\<open>index == last_index\<close>) exactly when no segment follows it. The test
  \<^verbatim>\<open>if current_node\<close> is the test for a node having been found: every node has the keys
  \<^verbatim>\<open>'text'\<close> and \<^verbatim>\<open>'children'\<close>, and a dictionary with a key is true. A failed
  \<^verbatim>\<open>assert\<close> ends the whole build. A new node is appended to the siblings before the loop
  goes on below it; as the loop changes it in place, the model appends it as the loop
  leaves it.
\<close>

fun walk :: "renderer \<Rightarrow> ZipInfo \<Rightarrow> bool \<Rightarrow> string list \<Rightarrow> node \<Rightarrow> error + node" where
  "walk self obj is_folder [] parent = Inr parent"
| "walk self obj is_folder (segment # rest) parent =
     (let siblings = children parent
      in case find_node_among_siblings segment siblings of
           Some current_node \<Rightarrow>
             if rest = [] then
               if \<not> is_folder then Inl AssertionError
               else Inr (set_children parent
                          (replace_sibling segment
                             (update_node_with_attributes self current_node obj is_folder)
                             siblings))
             else (case walk self obj is_folder rest current_node of
                     Inl e \<Rightarrow> Inl e
                   | Inr n \<Rightarrow> Inr (set_children parent (replace_sibling segment n siblings)))
         | None \<Rightarrow>
             (let new_node = Node segment None None []
              in if rest = [] then
                   Inr (set_children parent
                          (siblings @ [update_node_with_attributes self new_node obj is_folder]))
                 else (case walk self obj is_folder rest new_node of
                         Inl e \<Rightarrow> Inl e
                       | Inr n \<Rightarrow> Inr (set_children parent (siblings @ [n])))))"

text \<open>
  \<^verbatim>\<open>obj_list_to_tree\<close> in its parts: the list of path segments, one round of the outer
  loop (\<open>add_obj\<close>), the outer loop (\<open>add_objs\<close>), the root it starts from
  (\<open>tree_root0\<close>) and the function itself, which returns the list of the one root.
  \<^verbatim>\<open>path_from_root[-1]\<close> raises \<^verbatim>\<open>IndexError\<close> on the empty string.
\<close>

definition path_segments :: "string \<Rightarrow> string list" where
  "path_segments path_from_root =
     filter (\<lambda>segment. segment \<noteq> []) (split CHR ''/'' path_from_root)"

definition add_obj :: "renderer \<Rightarrow> node \<Rightarrow> ZipInfo \<Rightarrow> error + node" where
  "add_obj self tree_root obj =
     (let path_from_root = filename obj
      in if path_from_root = [] then Inl IndexError
         else (let is_folder = (last path_from_root = CHR ''/'')
               in walk self obj is_folder (path_segments path_from_root) tree_root))"

fun add_objs :: "renderer \<Rightarrow> node \<Rightarrow> ZipInfo list \<Rightarrow> error + node" where
  "add_objs self tree_root [] = Inr tree_root"
| "add_objs self tree_root (obj # obj_list) =
     (case add_obj self tree_root obj of
        Inl e \<Rightarrow> Inl e
      | Inr r \<Rightarrow> add_objs self r obj_list)"

definition tree_root0 :: "renderer \<Rightarrow> node" where
  "tree_root0 self =
     Node (metadata_name self @ metadata_ext self)
          (Some (assets_url self @ ''/img/file-ext-zip.png'')) None []"

definition obj_list_to_tree :: "renderer \<Rightarrow> ZipInfo list \<Rightarrow> error + node list" where
  "obj_list_to_tree self obj_list =
     (case add_objs self (tree_root0 self) obj_list of
        Inl e \<Rightarrow> Inl e
      | Inr r \<Rightarrow> Inr [r])"

text \<open>\<^verbatim>\<open>sanitize_obj_list\<close>, with the list built so far as the accumulator.\<close>

fun sanitize_loop :: "ZipInfo list \<Rightarrow> ZipInfo list \<Rightarrow> ZipInfo list" where
  "sanitize_loop sanitized_obj_list [] = sanitized_obj_list"
| "sanitize_loop sanitized_obj_list (obj # obj_list) =
     (let obj_path = filename obj
      in if startswith obj_path ''__MACOSX/'' then sanitize_loop sanitized_obj_list obj_list
         else if obj_path = ''.DS_Store'' \<or> endswith obj_path ''/.DS_Store''
              then sanitize_loop sanitized_obj_list obj_list
         else sanitize_loop (sanitized_obj_list @ [obj]) obj_list)"

definition sanitize_obj_list :: "ZipInfo list \<Rightarrow> ZipInfo list" where
  "sanitize_obj_list obj_list = sanitize_loop [] obj_list"

subsection \<open>Notions used in the statements\<close>

text \<open>Sibling uniqueness: below every node the texts of the children are pairwise different.\<close>

fun uniq :: "node \<Rightarrow> bool" where
  "uniq (Node t i d cs) = (distinct (map node_text cs) \<and> list_all uniq cs)"



fun count_nodes :: "node \<Rightarrow> nat" where
  "count_nodes (Node t i d cs) = Suc (sum_list (map count_nodes cs))"

text \<open>The node reached from \<open>n\<close> along the segments, by the renderer's own sibling search.\<close>

fun lookup_path :: "node \<Rightarrow> string list \<Rightarrow> node option" where
  "lookup_path n [] = Some n"
| "lookup_path n (segment # rest) =
     (case find_node_among_siblings segment (children n) of
        None \<Rightarrow> None
      | Some c \<Rightarrow> lookup_path c rest)"

text \<open>
  The branch that one entry hangs below a parent that has no child for its first segment:
  bare nodes for the segments before the last, the updated node for the last.
\<close>

fun fresh_branch :: "renderer \<Rightarrow> ZipInfo \<Rightarrow> bool \<Rightarrow> string list \<Rightarrow> node" where
  "fresh_branch self obj is_folder [] = Node [] None None []"
| "fresh_branch self obj is_folder [segment] =
     update_node_with_attributes self (Node segment None None []) obj is_folder"
| "fresh_branch self obj is_folder (segment # rest) =
     Node segment None None [fresh_branch self obj is_folder rest]"

text \<open>The paths the sanitizer is specified to drop.\<close>

definition junk :: "string \<Rightarrow> bool" where
  "junk path \<longleftrightarrow>
     prefix ''__MACOSX/'' path \<or> path = ''.DS_Store'' \<or> suffix ''/.DS_Store'' path"

text \<open>A number written with exactly two, and with exactly four, decimal digits.\<close>

definition two_digits :: "int \<Rightarrow> string" where
  "two_digits n = [digit_char (nat n div 10), digit_char (nat n mod 10)]"

definition four_digits :: "int \<Rightarrow> string" where
  "four_digits n =
     [digit_char (nat n div 1000), digit_char (nat n div 100 mod 10),
      digit_char (nat n div 10 mod 10), digit_char (nat n mod 10)]"

text \<open>The text behind, and the text before, the last occurrence of a character.\<close>

definition after_last :: "char \<Rightarrow> string \<Rightarrow> string" where
  "after_last c s = rev (takeWhile (\<lambda>x. x \<noteq> c) (rev s))"

definition before_last :: "char \<Rightarrow> string \<Rightarrow> string" where
  "before_last c s = rev (tl (dropWhile (\<lambda>x. x \<noteq> c) (rev s)))"

text \<open>
  The extension of a path segment as the renderer computes it: the lower-cased text behind
  the last dot, provided some character before that dot is not a dot; empty otherwise.
\<close>

definition extension :: "string \<Rightarrow> string" where
  "extension segment =
     (if CHR ''.'' \<in> set segment \<and>
         list_ex (\<lambda>x. x \<noteq> CHR ''.'') (before_last CHR ''.'' segment)
      then lower (after_last CHR ''.'' segment) else [])"

text \<open>
  The extension and the icon path in the specification's words: the lower-cased text behind
  the last dot of the final segment, empty if there is no dot.
\<close>

definition claimed_extension :: "string \<Rightarrow> string" where
  "claimed_extension segment =
     (if CHR ''.'' \<in> set segment then lower (after_last CHR ''.'' segment) else [])"

definition claimed_icon_path :: "renderer \<Rightarrow> string \<Rightarrow> bool \<Rightarrow> string" where
  "claimed_icon_path self segment is_folder =
     (if is_folder then assets_url self @ ''/img/folder.png''
      else if icon_exists self (claimed_extension segment)
           then assets_url self @ ''/img/file-ext-'' @ claimed_extension segment @ ''.png''
           else assets_url self @ ''/img/file-ext-generic.png'')"

text \<open>
  The kind of a node, as far as a dictionary shows it: a node is a folder when it has no
  icon yet (a placeholder made for a descendant) or carries the folder icon. The step for a
  last segment that is found, in the specification's words: it fails when the node found
  is not a folder and attaches the entry's attributes otherwise.
\<close>

definition is_folder_node :: "renderer \<Rightarrow> node \<Rightarrow> bool" where
  "is_folder_node self n \<longleftrightarrow>
     icon n = None \<or> icon n = Some (assets_url self @ ''/img/folder.png'')"

definition claimed_terminal_found ::
  "renderer \<Rightarrow> ZipInfo \<Rightarrow> bool \<Rightarrow> string \<Rightarrow> node \<Rightarrow> node \<Rightarrow> error + node" where
  "claimed_terminal_found self obj is_folder segment current_node parent =
     (if \<not> is_folder_node self current_node then Inl AssertionError
      else Inr (set_children parent
                  (replace_sibling segment
                     (update_node_with_attributes self current_node obj is_folder)
                     (children parent))))"

text \<open>A renderer and entries to run the functions on: only the zip icon exists.\<close>

definition example_entry :: "string \<Rightarrow> ZipInfo" where
  "example_entry p = \<lparr>filename = p, date_time = (2024, 1, 2, 3, 4, 5), file_size = 0\<rparr>"

definition example_renderer :: renderer where
  "example_renderer =
     \<lparr>metadata_name = ''archive'', metadata_ext = ''.zip'', assets_url = ''/assets'',
      module_dir = ''/mfr/extensions/zip'',
      isfile = (\<lambda>p. p = ''/mfr/extensions/zip/static/img/file-ext-zip.png''),
      sizeof_fmt = (\<lambda>n. fmt_d n @ ''B'')\<rparr>"

section \<open>Facts about the functions\<close>

subsection \<open>Searching and replacing among siblings\<close>

lemma find_None_iff:
  "find_node_among_siblings seg sibs = None \<longleftrightarrow> seg \<notin> set (map node_text sibs)"
  by (induction sibs) auto

lemma find_Some_D:
  "find_node_among_siblings seg sibs = Some n \<Longrightarrow> node_text n = seg \<and> n \<in> set sibs"
  by (induction sibs) (auto split: if_splits)

lemma map_text_replace:
  "node_text new = seg \<Longrightarrow> map node_text (replace_sibling seg new sibs) = map node_text sibs"
  by (induction sibs) auto

lemma find_replace:
  "find_node_among_siblings seg sibs = Some old \<Longrightarrow> node_text new = seg \<Longrightarrow>
   find_node_among_siblings seg (replace_sibling seg new sibs) = Some new"
  by (induction sibs) (auto split: if_splits)

lemma update_sel [simp]:
  "node_text (update_node_with_attributes self n obj f) = node_text n"
  "children (update_node_with_attributes self n obj f) = children n"
  "data (update_node_with_attributes self n obj f) =
     Some (format_date (date_time obj),
           if file_size obj \<noteq> 0 then sizeof_fmt self (file_size obj) else [])"
  by (simp_all add: update_node_with_attributes_def Let_def)

lemma set_children_sel [simp]:
  "node_text (set_children n cs) = node_text n"
  "icon (set_children n cs) = icon n"
  "data (set_children n cs) = data n"
  "children (set_children n cs) = cs"
  by (simp_all add: set_children_def)

subsection \<open>What the loops keep\<close>

lemma walk_keeps:
  "walk self obj f segs parent = Inr r \<Longrightarrow>
   node_text r = node_text parent \<and> icon r = icon parent \<and> data r = data parent"
  by (cases segs) (auto simp: Let_def split: option.splits if_splits sum.splits)

lemma uniq_iff: "uniq n \<longleftrightarrow> distinct (map node_text (children n)) \<and> list_all uniq (children n)"
  by (cases n) simp


lemma list_all_replace:
  "list_all P sibs \<Longrightarrow> P new \<Longrightarrow> list_all P (replace_sibling seg new sibs)"
  by (induction sibs) auto

lemma walk_uniq:
  "walk self obj f segs parent = Inr r \<Longrightarrow> uniq parent \<Longrightarrow> uniq r"
proof (induction segs arbitrary: parent r)
  case Nil
  then show ?case by simp
next
  case (Cons seg rest)
  show ?case
  proof (cases "find_node_among_siblings seg (children parent)")
    case None
    then have fresh: "seg \<notin> set (map node_text (children parent))"
      by (simp add: find_None_iff)
    show ?thesis
    proof (cases "rest = []")
      case True
      with Cons.prems None fresh show ?thesis
        by (auto simp: uniq_iff)
    next
      case False
      with Cons.prems None obtain n where
        w: "walk self obj f rest (Node seg None None []) = Inr n"
        and r: "r = set_children parent (children parent @ [n])"
        by (auto split: sum.splits)
      from Cons.IH [OF w] have "uniq n" by simp
      moreover from walk_keeps [OF w] have "node_text n = seg" by simp
      ultimately show ?thesis using r fresh Cons.prems(2)
        by (auto simp: uniq_iff)
    qed
  next
    case (Some cur)
    then have cur: "node_text cur = seg" "cur \<in> set (children parent)"
      by (simp_all add: find_Some_D)
    with Cons.prems(2) have ucur: "uniq cur"
      by (auto simp: uniq_iff [of parent] list_all_iff)
    show ?thesis
    proof (cases "rest = []")
      case True
      with Cons.prems Some cur ucur show ?thesis
        by (auto simp: uniq_iff map_text_replace list_all_replace split: if_splits)
    next
      case False
      with Cons.prems Some obtain n where
        w: "walk self obj f rest cur = Inr n"
        and r: "r = set_children parent (replace_sibling seg n (children parent))"
        by (auto split: sum.splits)
      from Cons.IH [OF w ucur] have "uniq n" .
      moreover from walk_keeps [OF w] cur have "node_text n = seg" by simp
      ultimately show ?thesis using r Cons.prems(2)
        by (auto simp: uniq_iff [of parent] uniq_iff [of "set_children _ _"] map_text_replace list_all_replace)
    qed
  qed
qed



lemma add_obj_uniq: "add_obj self root obj = Inr r \<Longrightarrow> uniq root \<Longrightarrow> uniq r"
  by (auto simp: add_obj_def Let_def dest: walk_uniq split: if_splits)



lemma add_objs_uniq: "add_objs self root objs = Inr r \<Longrightarrow> uniq root \<Longrightarrow> uniq r"
proof (induction objs arbitrary: root)
  case Nil
  then show ?case by simp
next
  case (Cons obj objs)
  then obtain m where m: "add_obj self root obj = Inr m" and r: "add_objs self m objs = Inr r"
    by (auto split: sum.splits)
  from add_obj_uniq [OF m Cons.prems(2)] Cons.IH [OF r] show ?case by simp
qed


subsection \<open>Where the build goes on\<close>

lemma tree_result:
  "obj_list_to_tree self objs = Inr t \<longleftrightarrow> (\<exists>r. add_objs self (tree_root0 self) objs = Inr r \<and> t = [r])"
  by (auto simp: obj_list_to_tree_def split: sum.splits)

lemma walk_folder_total: "\<exists>r. walk self obj True segs parent = Inr r"
proof (induction segs arbitrary: parent)
  case Nil
  then show ?case by simp
next
  case (Cons seg rest)
  show ?case
  proof (cases "find_node_among_siblings seg (children parent)")
    case None
    from Cons.IH [of "Node seg None None []"] None show ?thesis
      by (auto simp: Let_def)
  next
    case (Some cur)
    from Cons.IH [of cur] Some show ?thesis
      by (auto simp: Let_def)
  qed
qed


subsection \<open>An entry whose path is in the tree\<close>

lemma count_nodes_eq: "count_nodes n = Suc (sum_list (map count_nodes (children n)))"
  by (cases n) simp

lemma sum_count_replace:
  "find_node_among_siblings seg sibs = Some old \<Longrightarrow> count_nodes new = count_nodes old \<Longrightarrow>
   sum_list (map count_nodes (replace_sibling seg new sibs)) = sum_list (map count_nodes sibs)"
  by (induction sibs) (auto split: if_splits)

lemma count_update [simp]:
  "count_nodes (update_node_with_attributes self n obj f) = count_nodes n"
  by (simp add: count_nodes_eq [of "update_node_with_attributes self n obj f"] count_nodes_eq [of n])

lemma walk_existing:
  "segs \<noteq> [] \<Longrightarrow> lookup_path parent segs = Some n \<Longrightarrow>
   walk self obj False segs parent = Inl AssertionError \<and>
   (\<exists>r. walk self obj True segs parent = Inr r \<and>
        lookup_path r segs = Some (update_node_with_attributes self n obj True) \<and>
        count_nodes r = count_nodes parent)"
proof (induction segs arbitrary: parent)
  case Nil
  then show ?case by simp
next
  case (Cons seg rest)
  from Cons.prems(2) obtain cur where
    cur: "find_node_among_siblings seg (children parent) = Some cur"
    and look: "lookup_path cur rest = Some n"
    by (auto split: option.splits)
  from cur have text_cur: "node_text cur = seg"
    by (simp add: find_Some_D)
  show ?case
  proof (cases "rest = []")
    case True
    with look have "n = cur" by simp
    with True cur text_cur show ?thesis
      by (simp add: find_replace sum_count_replace
          count_nodes_eq [of "set_children _ _"] count_nodes_eq [of parent])
  next
    case False
    from Cons.IH [OF False look] obtain r where
      bad: "walk self obj False rest cur = Inl AssertionError"
      and r: "walk self obj True rest cur = Inr r"
      and look_r: "lookup_path r rest = Some (update_node_with_attributes self n obj True)"
      and cnt: "count_nodes r = count_nodes cur"
      by blast
    from walk_keeps [OF r] text_cur have "node_text r = seg" by simp
    with False cur bad r look_r cnt show ?thesis
      by (simp add: find_replace sum_count_replace
          count_nodes_eq [of "set_children _ _"] count_nodes_eq [of parent])
  qed
qed

subsection \<open>The sanitizer\<close>

lemma startswith_prefix: "startswith s p \<longleftrightarrow> prefix p s"
  unfolding startswith_def
  by (metis append_eq_conv_conj prefix_def)

lemma endswith_suffix: "endswith s p \<longleftrightarrow> suffix p s"
proof
  assume "endswith s p"
  then have "s = take (length s - length p) s @ p"
    unfolding endswith_def by (metis append_take_drop_id)
  then show "suffix p s" by (metis suffixI)
next
  assume "suffix p s"
  then obtain q where "s = q @ p" by (auto simp: suffix_def)
  then show "endswith s p" by (simp add: endswith_def)
qed

lemma sanitize_loop_filter:
  "sanitize_loop acc objs = acc @ filter (\<lambda>obj. \<not> junk (filename obj)) objs"
  by (induction objs arbitrary: acc)
     (simp_all add: Let_def junk_def startswith_prefix endswith_suffix)

subsection \<open>Splitting a path\<close>

lemma split_not_Nil: "split c s \<noteq> []"
  by (induction s) (auto split: list.splits)

lemma path_segments_Nil_iff: "path_segments p = [] \<longleftrightarrow> set p \<subseteq> {CHR ''/''}"
proof (induction p)
  case Nil
  then show ?case by (simp add: path_segments_def)
next
  case (Cons x xs)
  then show ?case
    using split_not_Nil [of "CHR ''/''" xs]
    by (cases "split CHR ''/'' xs") (auto simp: path_segments_def)
qed

lemma path_segments_file:
  assumes "p \<noteq> []" and "last p \<noteq> CHR ''/''"
  shows "path_segments p \<noteq> []"
proof
  note p = assms
  assume "path_segments p = []"
  then have "set p \<subseteq> {CHR ''/''}" by (simp add: path_segments_Nil_iff)
  moreover from p have "last p \<in> set p" by simp
  ultimately show False using p by blast
qed

lemma add_obj_no_segments:
  "filename obj \<noteq> [] \<Longrightarrow> path_segments (filename obj) = [] \<Longrightarrow> add_obj self root obj = Inr root"
  by (simp add: add_obj_def)

lemma add_objs_append:
  "add_objs self root (xs @ ys) =
     (case add_objs self root xs of Inl e \<Rightarrow> Inl e | Inr r \<Rightarrow> add_objs self r ys)"
  by (induction xs arbitrary: root) (auto split: sum.splits)

lemma skip_entry_without_segments:
  "filename obj \<noteq> [] \<Longrightarrow> set (filename obj) \<subseteq> {CHR ''/''} \<Longrightarrow>
   obj_list_to_tree self (xs @ obj # ys) = obj_list_to_tree self (xs @ ys)"
  by (auto simp: obj_list_to_tree_def add_objs_append add_obj_no_segments path_segments_Nil_iff
      split: sum.splits)

subsection \<open>An entry below a parent without such a child\<close>

lemma text_fresh_branch: "node_text (fresh_branch self obj f (seg # rest)) = seg"
  by (cases rest) simp_all

lemma walk_fresh:
  "segs \<noteq> [] \<Longrightarrow> find_node_among_siblings (hd segs) (children parent) = None \<Longrightarrow>
   walk self obj f segs parent =
     Inr (set_children parent (children parent @ [fresh_branch self obj f segs]))"
proof (induction segs arbitrary: parent)
  case Nil
  then show ?case by simp
next
  case (Cons seg rest)
  show ?case
  proof (cases rest)
    case Nil
    with Cons.prems show ?thesis by simp
  next
    case (Cons s2 r2)
    have "walk self obj f rest (Node seg None None []) =
            Inr (set_children (Node seg None None []) ([] @ [fresh_branch self obj f rest]))"
      using Cons.IH [of "Node seg None None []"] Cons by simp
    with Cons Cons.prems show ?thesis
      by (simp add: set_children_def)
  qed
qed

lemma update_twice:
  "update_node_with_attributes self (update_node_with_attributes self n obj1 f1) obj2 f2 =
   update_node_with_attributes self n obj2 f2"
  by (simp add: update_node_with_attributes_def Let_def)

lemma walk_over_branch:
  "segs \<noteq> [] \<Longrightarrow> children parent = [fresh_branch self obj1 f1 segs] \<Longrightarrow>
   walk self obj2 True segs parent = Inr (set_children parent [fresh_branch self obj2 True segs])"
proof (induction segs arbitrary: parent)
  case Nil
  then show ?case by simp
next
  case (Cons seg rest)
  show ?case
  proof (cases rest)
    case Nil
    with Cons.prems show ?thesis by (simp add: update_twice)
  next
    case (Cons s2 r2)
    have "walk self obj2 True rest (Node seg None None [fresh_branch self obj1 f1 rest]) =
            Inr (set_children (Node seg None None [fresh_branch self obj1 f1 rest])
                   [fresh_branch self obj2 True rest])"
      using Cons.IH [of "Node seg None None [fresh_branch self obj1 f1 rest]"] Cons by simp
    with Cons Cons.prems show ?thesis
      by (simp add: set_children_def)
  qed
qed

lemma lookup_fresh_branch:
  "segs \<noteq> [] \<Longrightarrow> children parent = [fresh_branch self obj f segs] \<Longrightarrow>
   lookup_path parent segs =
     Some (update_node_with_attributes self (Node (last segs) None None []) obj f)"
proof (induction segs arbitrary: parent)
  case Nil
  then show ?case by simp
next
  case (Cons seg rest)
  show ?case
  proof (cases rest)
    case Nil
    with Cons.prems show ?thesis by simp
  next
    case (Cons s2 r2)
    with Cons.IH [of "Node seg None None [fresh_branch self obj f rest]"] Cons.prems
    show ?thesis by simp
  qed
qed

lemma count_fresh_branch: "segs \<noteq> [] \<Longrightarrow> count_nodes (fresh_branch self obj f segs) = length segs"
proof (induction segs)
  case Nil
  then show ?case by simp
next
  case (Cons seg rest)
  then show ?case
    by (cases rest) (simp_all add: count_nodes_eq [of "update_node_with_attributes _ _ _ _"])
qed

lemma single_entry_tree:
  assumes "filename obj \<noteq> []" and "path_segments (filename obj) \<noteq> []"
  shows "add_obj self (tree_root0 self) obj =
           Inr (set_children (tree_root0 self)
                  [fresh_branch self obj (last (filename obj) = CHR ''/'')
                     (path_segments (filename obj))])"
  using assms walk_fresh [of "path_segments (filename obj)" "tree_root0 self" self obj]
  by (simp add: add_obj_def tree_root0_def Let_def)

lemma walk_new_path:
  "lookup_path parent segs = None \<Longrightarrow> \<exists>r. walk self obj f segs parent = Inr r"
proof (induction segs arbitrary: parent)
  case Nil
  then show ?case by simp
next
  case (Cons seg rest)
  show ?case
  proof (cases "find_node_among_siblings seg (children parent)")
    case None
    show ?thesis
    proof (cases rest)
      case Nil
      with None show ?thesis by simp
    next
      case (Cons s2 r2)
      then have "walk self obj f rest (Node seg None None []) =
                   Inr (set_children (Node seg None None []) ([] @ [fresh_branch self obj f rest]))"
        using walk_fresh [of rest "Node seg None None []" self obj f] by simp
      with None Cons show ?thesis by simp
    qed
  next
    case (Some cur)
    with Cons.prems have look: "lookup_path cur rest = None" by simp
    then have "rest \<noteq> []" by auto
    moreover from Cons.IH [OF look] obtain r where "walk self obj f rest cur = Inr r" ..
    ultimately show ?thesis using Some by simp
  qed
qed

text \<open>
  When one round of the outer loop fails: on the empty path, and on a path that does not
  end in a slash and leads to a node of the tree.
\<close>

lemma add_obj_fails_iff:
  "add_obj self tree_root obj = Inl e \<longleftrightarrow>
     filename obj = [] \<and> e = IndexError \<or>
     filename obj \<noteq> [] \<and> last (filename obj) \<noteq> CHR ''/'' \<and>
     lookup_path tree_root (path_segments (filename obj)) \<noteq> None \<and> e = AssertionError"
proof (cases "filename obj = []")
  case True
  then show ?thesis by (auto simp: add_obj_def)
next
  case ne: False
  show ?thesis
  proof (cases "last (filename obj) = CHR ''/''")
    case True
    with ne walk_folder_total [of self obj "path_segments (filename obj)" tree_root]
    show ?thesis by (auto simp: add_obj_def)
  next
    case False
    with ne have segs: "path_segments (filename obj) \<noteq> []"
      by (rule path_segments_file)
    show ?thesis
    proof (cases "lookup_path tree_root (path_segments (filename obj))")
      case None
      from walk_new_path [OF None, of self obj False] ne False None
      show ?thesis by (auto simp: add_obj_def)
    next
      case (Some n)
      from walk_existing [OF segs Some, of self obj] ne False Some
      show ?thesis by (auto simp: add_obj_def)
    qed
  qed
qed

subsection \<open>Paths stay in the tree\<close>

lemma find_append:
  "find_node_among_siblings q xs = Some c \<Longrightarrow> find_node_among_siblings q (xs @ ys) = Some c"
  by (induction xs) (auto split: if_splits)

lemma find_append_fresh:
  "find_node_among_siblings seg xs = None \<Longrightarrow> node_text new = seg \<Longrightarrow>
   find_node_among_siblings seg (xs @ [new]) = Some new"
  by (induction xs) (auto split: if_splits)

lemma find_replace_other:
  "q \<noteq> seg \<Longrightarrow> node_text new = seg \<Longrightarrow>
   find_node_among_siblings q (replace_sibling seg new sibs) = find_node_among_siblings q sibs"
  by (induction sibs) auto

lemma lookup_path_children:
  "children a = children b \<Longrightarrow> qs \<noteq> [] \<Longrightarrow> lookup_path a qs = lookup_path b qs"
  by (cases qs) simp_all

lemma walk_lookup_persist:
  "walk self obj f segs parent = Inr r \<Longrightarrow> lookup_path parent p = Some n \<Longrightarrow>
   \<exists>n'. lookup_path r p = Some n' \<and> node_text n' = node_text n"
proof (induction segs arbitrary: parent r p n)
  case Nil
  then show ?case by simp
next
  case (Cons seg rest)
  show ?case
  proof (cases p)
    case Nil
    with Cons.prems walk_keeps [OF Cons.prems(1)] show ?thesis by simp
  next
    case p: (Cons q qs)
    with Cons.prems(2) obtain c where
      c: "find_node_among_siblings q (children parent) = Some c"
      and look: "lookup_path c qs = Some n"
      by (auto split: option.splits)
    show ?thesis
    proof (cases "find_node_among_siblings seg (children parent)")
      case None
      with Cons.prems(1) obtain new where "children r = children parent @ [new]"
        by (auto simp: Let_def split: if_splits sum.splits)
      with c look p show ?thesis by (simp add: find_append)
    next
      case (Some cur)
      then have text_cur: "node_text cur = seg" by (simp add: find_Some_D)
      from Cons.prems(1) Some obtain new where
        r: "children r = replace_sibling seg new (children parent)"
        and new: "rest = [] \<and> new = update_node_with_attributes self cur obj f \<or>
                  rest \<noteq> [] \<and> walk self obj f rest cur = Inr new"
        by (auto simp: Let_def split: if_splits sum.splits)
      from new text_cur have text_new: "node_text new = seg"
        by (auto dest: walk_keeps)
      show ?thesis
      proof (cases "q = seg")
        case False
        with r text_new c look p show ?thesis by (simp add: find_replace_other)
      next
        case True
        with c Some have "c = cur" by simp
        from True r Some text_new have found: "find_node_among_siblings q (children r) = Some new"
          by (simp add: find_replace)
        have "\<exists>n'. lookup_path new qs = Some n' \<and> node_text n' = node_text n"
        proof (cases "rest = []")
          case True
          with new have upd: "new = update_node_with_attributes self cur obj f" by simp
          show ?thesis
          proof (cases "qs = []")
            case True
            with look \<open>c = cur\<close> upd show ?thesis by simp
          next
            case False
            with upd have "lookup_path new qs = lookup_path cur qs"
              by (intro lookup_path_children) simp_all
            with look \<open>c = cur\<close> show ?thesis by simp
          qed
        next
          case False
          with new have "walk self obj f rest cur = Inr new" by simp
          from Cons.IH [OF this] look \<open>c = cur\<close> show ?thesis by simp
        qed
        with found p show ?thesis by simp
      qed
    qed
  qed
qed

lemma walk_creates:
  "walk self obj f segs parent = Inr r \<Longrightarrow> \<exists>n. lookup_path r segs = Some n"
proof (induction segs arbitrary: parent r)
  case Nil
  then show ?case by simp
next
  case (Cons seg rest)
  show ?case
  proof (cases "find_node_among_siblings seg (children parent)")
    case None
    then have fresh: "find_node_among_siblings seg (children parent @ [new]) = Some new"
      if "node_text new = seg" for new
      using that by (simp add: find_append_fresh)
    show ?thesis
    proof (cases "rest = []")
      case True
      with Cons.prems None fresh show ?thesis by auto
    next
      case False
      with Cons.prems None obtain new where
        w: "walk self obj f rest (Node seg None None []) = Inr new"
        and r: "r = set_children parent (children parent @ [new])"
        by (auto split: sum.splits)
      from walk_keeps [OF w] have "node_text new = seg" by simp
      with r fresh Cons.IH [OF w] show ?thesis by auto
    qed
  next
    case (Some cur)
    then have text_cur: "node_text cur = seg" by (simp add: find_Some_D)
    show ?thesis
    proof (cases "rest = []")
      case True
      with Cons.prems Some text_cur show ?thesis
        by (auto simp: find_replace split: if_splits)
    next
      case False
      with Cons.prems Some obtain new where
        w: "walk self obj f rest cur = Inr new"
        and r: "r = set_children parent (replace_sibling seg new (children parent))"
        by (auto split: sum.splits)
      from walk_keeps [OF w] text_cur have "node_text new = seg" by simp
      with r Some Cons.IH [OF w] show ?thesis by (auto simp: find_replace)
    qed
  qed
qed

lemma add_obj_lookup_persist:
  "add_obj self root obj = Inr r \<Longrightarrow> lookup_path root p = Some n \<Longrightarrow>
   \<exists>n'. lookup_path r p = Some n' \<and> node_text n' = node_text n"
  by (auto simp: add_obj_def Let_def split: if_splits dest: walk_lookup_persist)

lemma add_objs_lookup_persist:
  "add_objs self root objs = Inr r \<Longrightarrow> lookup_path root p = Some n \<Longrightarrow>
   \<exists>n'. lookup_path r p = Some n' \<and> node_text n' = node_text n"
proof (induction objs arbitrary: root n)
  case Nil
  then show ?case by simp
next
  case (Cons obj objs)
  then obtain m where m: "add_obj self root obj = Inr m" and r: "add_objs self m objs = Inr r"
    by (auto split: sum.splits)
  from add_obj_lookup_persist [OF m Cons.prems(2)] obtain n1 where
    "lookup_path m p = Some n1" "node_text n1 = node_text n" by blast
  with Cons.IH [OF r, of n1] show ?case by auto
qed

lemma add_obj_creates:
  "add_obj self root obj = Inr r \<Longrightarrow> \<exists>n. lookup_path r (path_segments (filename obj)) = Some n"
  by (auto simp: add_obj_def Let_def split: if_splits dest: walk_creates)

lemma folder_after_entries:
  assumes g: "filename g \<noteq> []" "last (filename g) = CHR ''/''"
    and same: "path_segments (filename g) = path_segments (filename f)"
    and segs: "path_segments (filename f) \<noteq> []"
    and built: "obj_list_to_tree self (pre @ f # mid) = Inr [r]"
  shows "\<exists>n r'. lookup_path r (path_segments (filename f)) = Some n \<and>
           obj_list_to_tree self (pre @ f # mid @ [g]) = Inr [r'] \<and>
           lookup_path r' (path_segments (filename f)) =
             Some (Node (node_text n) (Some (assets_url self @ ''/img/folder.png''))
                     (Some (format_date (date_time g),
                            if file_size g \<noteq> 0 then sizeof_fmt self (file_size g) else []))
                     (children n)) \<and>
           count_nodes r' = count_nodes r"
proof -
  let ?segs = "path_segments (filename f)"
  from built have all: "add_objs self (tree_root0 self) (pre @ f # mid) = Inr r"
    by (simp add: tree_result)
  then obtain r0 r1 where r0: "add_objs self (tree_root0 self) pre = Inr r0"
    and r1: "add_obj self r0 f = Inr r1" and r: "add_objs self r1 mid = Inr r"
    by (auto simp: add_objs_append split: sum.splits)
  from add_obj_creates [OF r1] obtain n1 where "lookup_path r1 ?segs = Some n1" ..
  from add_objs_lookup_persist [OF r this] obtain n where n: "lookup_path r ?segs = Some n"
    by blast
  from walk_existing [OF segs n, of self g] obtain r' where
    w: "walk self g True ?segs r = Inr r'"
    and l: "lookup_path r' ?segs = Some (update_node_with_attributes self n g True)"
    and c: "count_nodes r' = count_nodes r"
    by blast
  from w g same have "add_obj self r g = Inr r'"
    by (simp add: add_obj_def)
  with all have "add_objs self (tree_root0 self) ((pre @ f # mid) @ [g]) = Inr r'"
    by (simp only: add_objs_append) simp
  then have "obj_list_to_tree self (pre @ f # mid @ [g]) = Inr [r']"
    by (simp add: obj_list_to_tree_def)
  with n l c show ?thesis
    by (simp add: update_node_with_attributes_def)
qed

subsection \<open>Formatting numbers\<close>

lemma digit_char_mod: "digit_char (n mod 10) = digit_char n"
  by (simp add: digit_char_def)

lemma str_nat_1: "n < 10 \<Longrightarrow> str_nat n = [digit_char n]"
  by (simp add: str_nat.simps)

lemma str_nat_2: "10 \<le> n \<Longrightarrow> n < 100 \<Longrightarrow> str_nat n = [digit_char (n div 10), digit_char n]"
  by (subst str_nat.simps) (simp add: str_nat_1)

lemma str_nat_3:
  "100 \<le> n \<Longrightarrow> n < 1000 \<Longrightarrow>
   str_nat n = [digit_char (n div 100), digit_char (n div 10), digit_char n]"
  by (subst str_nat.simps) (simp add: str_nat_2 div_mult2_eq [symmetric])

lemma str_nat_4:
  "1000 \<le> n \<Longrightarrow> n < 10000 \<Longrightarrow>
   str_nat n = [digit_char (n div 1000), digit_char (n div 100), digit_char (n div 10), digit_char n]"
  by (subst str_nat.simps) (simp add: str_nat_3 div_mult2_eq [symmetric])

lemma fmt_02d_two_digits: "0 \<le> n \<Longrightarrow> n \<le> 99 \<Longrightarrow> fmt_02d n = two_digits n"
proof -
  assume n: "0 \<le> n" "n \<le> 99"
  show ?thesis
  proof (cases "n < 10")
    case True
    with n have "str_nat (nat n) = [digit_char (nat n)]" by (simp add: str_nat_1)
    moreover from True n have "nat n div 10 = 0" by simp
    ultimately show ?thesis using n
      by (simp add: fmt_02d_def fmt_d_def two_digits_def digit_char_mod digit_char_def)
  next
    case False
    with n have "str_nat (nat n) = [digit_char (nat n div 10), digit_char (nat n)]"
      by (simp add: str_nat_2)
    then show ?thesis using n
      by (simp add: fmt_02d_def fmt_d_def two_digits_def digit_char_mod)
  qed
qed

lemma fmt_d_four_digits: "1000 \<le> n \<Longrightarrow> n \<le> 9999 \<Longrightarrow> fmt_d n = four_digits n"
proof -
  assume n: "1000 \<le> n" "n \<le> 9999"
  then have "str_nat (nat n) =
    [digit_char (nat n div 1000), digit_char (nat n div 100), digit_char (nat n div 10),
     digit_char (nat n)]"
    by (simp add: str_nat_4)
  moreover have "digit_char (nat n div 100) = digit_char (nat n div 100 mod 10)"
    "digit_char (nat n div 10) = digit_char (nat n div 10 mod 10)"
    "digit_char (nat n) = digit_char (nat n mod 10)"
    by (simp_all only: digit_char_mod)
  ultimately show ?thesis using n
    by (simp add: fmt_d_def four_digits_def)
qed

subsection \<open>The extension\<close>

lemma takeWhile_rev_absent: "c \<notin> set ys \<Longrightarrow> takeWhile (\<lambda>x. x \<noteq> c) (rev ys) = rev ys"
  by (auto simp: takeWhile_eq_all_conv)

lemma dropWhile_rev_absent:
  "c \<notin> set ys \<Longrightarrow> dropWhile (\<lambda>x. x \<noteq> c) (rev ys @ zs) = dropWhile (\<lambda>x. x \<noteq> c) zs"
  by (rule dropWhile_append2) auto

lemma lower_Nil [simp]: "lower [] = []"
  by (simp add: lower_def)

lemma after_last_append: "c \<notin> set ys \<Longrightarrow> after_last c (xs @ c # ys) = ys"
  by (simp add: after_last_def takeWhile_tail takeWhile_rev_absent)

lemma after_last_none: "c \<notin> set s \<Longrightarrow> after_last c s = s"
  by (simp add: after_last_def takeWhile_rev_absent)

lemma before_last_append: "c \<notin> set ys \<Longrightarrow> before_last c (xs @ c # ys) = xs"
  by (simp add: before_last_def dropWhile_rev_absent)

lemma rfind_none: "c \<notin> set s \<Longrightarrow> rfind s c = - 1"
  by (simp add: rfind_def)

lemma rfind_append: "c \<notin> set ys \<Longrightarrow> rfind (xs @ c # ys) c = int (length xs)"
  by (simp add: rfind_def takeWhile_tail takeWhile_rev_absent)

lemma split_no_sep: "c \<notin> set b \<Longrightarrow> split c b = [b]"
  by (induction b) auto

lemma split_append_sep: "c \<notin> set b \<Longrightarrow> split c (d @ c # b) = split c d @ [b]"
proof (induction d)
  case Nil
  then show ?case by (simp add: split_no_sep)
next
  case (Cons x d)
  then show ?case
    using split_not_Nil [of c d] by (cases "split c d") auto
qed

lemma last_segment:
  assumes "p \<noteq> []" and "last p \<noteq> CHR ''/''"
  shows "last (path_segments p) = after_last CHR ''/'' p"
proof (cases "CHR ''/'' \<in> set p")
  case False
  with assms show ?thesis
    by (simp add: path_segments_def split_no_sep after_last_none)
next
  case True
  then obtain d b where p: "p = d @ CHR ''/'' # b" and b: "CHR ''/'' \<notin> set b"
    by (meson split_list_last)
  with assms have "b \<noteq> []" by auto
  with p b show ?thesis
    by (simp add: path_segments_def split_append_sep after_last_append)
qed

lemma dropWhile_absent: "c \<notin> set xs \<Longrightarrow> dropWhile (\<lambda>x. x = c) xs = xs"
  by (cases xs) auto

lemma splitext_dir_base:
  assumes d: "d = [] \<or> last d = CHR ''/''" and b: "CHR ''/'' \<notin> set b"
  shows "lower (lstrip_dot (snd (splitext (d @ b)))) = extension b"
proof -
  have sep: "rfind (d @ b) CHR ''/'' = int (length d) - 1"
  proof (cases "d = []")
    case True
    with b show ?thesis by (simp add: rfind_none)
  next
    case False
    with d obtain d' where "d = d' @ [CHR ''/'']"
      by (metis append_butlast_last_id)
    with b show ?thesis
      using rfind_append [of "CHR ''/''" b d'] by simp
  qed
  show ?thesis
  proof (cases "CHR ''.'' \<in> set b")
    case False
    have "rfind (d @ b) CHR ''.'' \<le> int (length d) - 1"
    proof (cases "CHR ''.'' \<in> set d")
      case False
      with \<open>CHR ''.'' \<notin> set b\<close> show ?thesis by (simp add: rfind_none)
    next
      case True
      then obtain u v where uv: "d = u @ CHR ''.'' # v" "CHR ''.'' \<notin> set v"
        by (meson split_list_last)
      with \<open>CHR ''.'' \<notin> set b\<close> have "rfind (u @ CHR ''.'' # (v @ b)) CHR ''.'' = int (length u)"
        by (intro rfind_append) simp
      with uv show ?thesis by simp
    qed
    with sep False show ?thesis
      by (simp add: splitext_def extension_def lstrip_dot_def lower_def)
  next
    case True
    then obtain pre suf where ps: "b = pre @ CHR ''.'' # suf" "CHR ''.'' \<notin> set suf"
      by (meson split_list_last)
    then have dot: "rfind (d @ b) CHR ''.'' = int (length d + length pre)"
      using rfind_append [of "CHR ''.''" suf "d @ pre"] by simp
    from ps have slice: "take (length pre) (drop (length d) (d @ b)) = pre" by simp
    from ps have rest: "drop (length d + length pre) (d @ b) = CHR ''.'' # suf" by simp
    from ps have bl: "before_last CHR ''.'' b = pre" "after_last CHR ''.'' b = suf"
      by (simp_all add: before_last_append after_last_append)
    have n1: "nat (int (length d + length pre) - (int (length d) - 1 + 1)) = length pre"
      by simp
    have n2: "nat (int (length d) - 1 + 1) = length d" by simp
    have n3: "nat (int (length d + length pre)) = length d + length pre" by simp
    show ?thesis
      unfolding splitext_def Let_def sep dot n1 n2 n3 slice rest extension_def bl
      using True ps(2) by (simp add: lstrip_dot_def dropWhile_absent)
  qed
qed

lemma code_extension:
  assumes "p \<noteq> []" and "last p \<noteq> CHR ''/''"
  shows "lower (lstrip_dot (snd (splitext p))) = extension (last (path_segments p))"
proof (cases "CHR ''/'' \<in> set p")
  case False
  with assms splitext_dir_base [of "[]" p] show ?thesis
    by (simp add: last_segment after_last_none)
next
  case True
  then obtain d b where p: "p = d @ CHR ''/'' # b" and b: "CHR ''/'' \<notin> set b"
    by (meson split_list_last)
  from b have "lower (lstrip_dot (snd (splitext ((d @ [CHR ''/'']) @ b)))) = extension b"
    by (intro splitext_dir_base) simp_all
  with assms p b show ?thesis
    by (simp add: last_segment after_last_append)
qed

lemma lower_char_idem: "lower_char (lower_char c) = lower_char c"
  by (simp add: lower_char_def)

lemma lower_idem: "lower (lower s) = lower s"
  by (simp add: lower_def lower_char_idem)

subsection \<open>The example renderer, evaluated\<close>

lemma ex_segments:
  "path_segments ''a'' = [''a'']"
  "path_segments ''a/'' = [''a'']"
  "path_segments ''x/'' = [''x'']"
  "path_segments ''a/b'' = [''a'', ''b'']"
  "path_segments ''a/b.txt'' = [''a'', ''b.txt'']"
  "path_segments ''x/y/z.txt'' = [''x'', ''y'', ''z.txt'']"
  "path_segments ''.zip'' = [''.zip'']"
  "path_segments ''c/d.ZIP'' = [''c'', ''d.ZIP'']"
  by (simp_all add: path_segments_def)

lemma ex_ext:
  "lower (lstrip_dot (snd (splitext ''a''))) = []"
  "lower (lstrip_dot (snd (splitext ''a/b''))) = []"
  "lower (lstrip_dot (snd (splitext ''a/b.txt''))) = ''txt''"
  "lower (lstrip_dot (snd (splitext ''x/y/z.txt''))) = ''txt''"
  "lower (lstrip_dot (snd (splitext ''.zip''))) = []"
  "lower (lstrip_dot (snd (splitext ''c/d.ZIP''))) = ''zip''"
  by (simp_all add: splitext_def rfind_def lstrip_dot_def lower_def lower_char_def)

lemma ex_icons:
  "icon_exists example_renderer [] = False"
  "icon_exists example_renderer ''txt'' = False"
  "icon_exists example_renderer ''zip'' = True"
  "icon_exists example_renderer ''ZIP'' = True"
  by (simp_all add: icon_exists_def example_renderer_def os_path_join_def join2_def
      startswith_def endswith_def lower_def lower_char_def)

lemma ex_date: "format_date (2024, 1, 2, 3, 4, 5) = ''2024-01-02 03:04:05''"
  by (simp add: format_date_def fmt_02d_def fmt_d_def str_nat.simps digit_char_def)

lemma ex_sel:
  "assets_url example_renderer = ''/assets''"
  "metadata_name example_renderer = ''archive''"
  "metadata_ext example_renderer = ''.zip''"
  by (simp_all add: example_renderer_def)

lemmas ex_eval =
  obj_list_to_tree_def tree_root0_def add_obj_def ex_segments ex_ext ex_icons ex_date ex_sel
  update_node_with_attributes_def set_children_def example_entry_def

section \<open>The claims\<close>

subsection \<open>C1: one deeply nested entry\<close>

text \<open>
  C1. For the single entry \<^verbatim>\<open>x/y/z.txt\<close> the result is the root with the only child
  \<^verbatim>\<open>x\<close>, whose only child is \<^verbatim>\<open>y\<close>, whose only child is the leaf \<^verbatim>\<open>z.txt\<close>. The nodes
  \<^verbatim>\<open>x\<close> and \<^verbatim>\<open>y\<close> have neither icon nor data; \<^verbatim>\<open>z.txt\<close> has its icon, its date and its
  size. This holds for every renderer and for every date and size of the entry.
\<close>

theorem nested_entry_tree:
  "obj_list_to_tree self [obj\<lparr>filename := ''x/y/z.txt''\<rparr>] =
     Inr [Node (metadata_name self @ metadata_ext self)
            (Some (assets_url self @ ''/img/file-ext-zip.png'')) None
            [Node ''x'' None None
              [Node ''y'' None None
                [Node ''z.txt''
                   (Some (if icon_exists self ''txt''
                          then assets_url self @ ''/img/file-ext-txt.png''
                          else assets_url self @ ''/img/file-ext-generic.png''))
                   (Some (format_date (date_time obj),
                          if file_size obj = 0 then [] else sizeof_fmt self (file_size obj)))
                   []]]]]"
  by (simp add: obj_list_to_tree_def tree_root0_def add_obj_def ex_segments ex_ext
      update_node_with_attributes_def set_children_def)

theorem nested_entry_tree_witness:
  "obj_list_to_tree example_renderer [example_entry ''x/y/z.txt''] =
     Inr [Node ''archive.zip'' (Some ''/assets/img/file-ext-zip.png'') None
            [Node ''x'' None None
              [Node ''y'' None None
                [Node ''z.txt'' (Some ''/assets/img/file-ext-generic.png'')
                   (Some (''2024-01-02 03:04:05'', [])) []]]]]"
  using nested_entry_tree [of example_renderer "example_entry ''x/y/z.txt''"]
  by (simp add: example_entry_def ex_icons ex_date ex_sel)

subsection \<open>C2: a last segment that is found\<close>

text \<open>
  C2, as claimed: when the last segment of an entry is found among the siblings, the build
  fails if the node found is not a folder, and attaches the entry's attributes to it
  otherwise. The code decides by the entry, not by the node. After \<^verbatim>\<open>a/b\<close> the node
  \<^verbatim>\<open>a\<close> is a folder placeholder, and the file entry \<^verbatim>\<open>a\<close> makes the build fail where the
  claim attaches. After the file entry \<^verbatim>\<open>a\<close> the node \<^verbatim>\<open>a\<close> is a file, and the folder
  entry \<^verbatim>\<open>a/\<close> is attached to it where the claim fails.
\<close>

theorem found_node_kind_counterexample:
  "obj_list_to_tree example_renderer [example_entry ''a/b''] =
     Inr [Node ''archive.zip'' (Some ''/assets/img/file-ext-zip.png'') None
            [Node ''a'' None None
               [Node ''b'' (Some ''/assets/img/file-ext-generic.png'')
                  (Some (''2024-01-02 03:04:05'', [])) []]]] \<and>
   is_folder_node example_renderer
     (Node ''a'' None None
        [Node ''b'' (Some ''/assets/img/file-ext-generic.png'')
           (Some (''2024-01-02 03:04:05'', [])) []]) \<and>
   obj_list_to_tree example_renderer [example_entry ''a/b'', example_entry ''a''] =
     Inl AssertionError \<and>
   claimed_terminal_found example_renderer (example_entry ''a'') False ''a''
     (Node ''a'' None None
        [Node ''b'' (Some ''/assets/img/file-ext-generic.png'')
           (Some (''2024-01-02 03:04:05'', [])) []])
     (Node ''archive.zip'' (Some ''/assets/img/file-ext-zip.png'') None
        [Node ''a'' None None
           [Node ''b'' (Some ''/assets/img/file-ext-generic.png'')
              (Some (''2024-01-02 03:04:05'', [])) []]]) \<noteq> Inl AssertionError \<and>
   obj_list_to_tree example_renderer [example_entry ''a''] =
     Inr [Node ''archive.zip'' (Some ''/assets/img/file-ext-zip.png'') None
            [Node ''a'' (Some ''/assets/img/file-ext-generic.png'')
               (Some (''2024-01-02 03:04:05'', [])) []]] \<and>
   \<not> is_folder_node example_renderer
     (Node ''a'' (Some ''/assets/img/file-ext-generic.png'')
        (Some (''2024-01-02 03:04:05'', [])) []) \<and>
   obj_list_to_tree example_renderer [example_entry ''a'', example_entry ''a/''] \<noteq>
     Inl AssertionError \<and>
   claimed_terminal_found example_renderer (example_entry ''a/'') True ''a''
     (Node ''a'' (Some ''/assets/img/file-ext-generic.png'')
        (Some (''2024-01-02 03:04:05'', [])) [])
     (Node ''archive.zip'' (Some ''/assets/img/file-ext-zip.png'') None
        [Node ''a'' (Some ''/assets/img/file-ext-generic.png'')
           (Some (''2024-01-02 03:04:05'', [])) []]) = Inl AssertionError"
  by (simp add: ex_eval is_folder_node_def claimed_terminal_found_def)

text \<open>
  C2, amended: when the whole path of an entry already leads to a node of the tree, the
  build fails with the assertion if the entry is not a folder (its path does not end in a
  slash), whatever node was found; if the entry is a folder, the build goes on, the node
  found carries the entry's attributes afterwards, and the tree has as many nodes as before.
\<close>

theorem existing_path_entry:
  assumes "path_segments (filename obj) \<noteq> []"
    and "lookup_path tree_root (path_segments (filename obj)) = Some n"
  shows "if last (filename obj) = CHR ''/''
         then \<exists>r. add_obj self tree_root obj = Inr r \<and>
                  lookup_path r (path_segments (filename obj)) =
                    Some (update_node_with_attributes self n obj True) \<and>
                  count_nodes r = count_nodes tree_root
         else add_obj self tree_root obj = Inl AssertionError"
proof -
  from assms(1) have "filename obj \<noteq> []"
    by (auto simp: path_segments_def)
  with walk_existing [OF assms, of self obj] show ?thesis
    by (simp add: add_obj_def)
qed

theorem existing_path_entry_witness:
  "path_segments (filename (example_entry ''a/'')) \<noteq> [] \<and>
   lookup_path
     (Node ''archive.zip'' (Some ''/assets/img/file-ext-zip.png'') None
        [Node ''a'' None None [Node ''b'' (Some ''/assets/img/file-ext-generic.png'')
           (Some (''2024-01-02 03:04:05'', [])) []]])
     (path_segments (filename (example_entry ''a/''))) =
     Some (Node ''a'' None None [Node ''b'' (Some ''/assets/img/file-ext-generic.png'')
           (Some (''2024-01-02 03:04:05'', [])) []]) \<and>
   (\<exists>r. add_obj example_renderer
          (Node ''archive.zip'' (Some ''/assets/img/file-ext-zip.png'') None
             [Node ''a'' None None [Node ''b'' (Some ''/assets/img/file-ext-generic.png'')
           (Some (''2024-01-02 03:04:05'', [])) []]])
          (example_entry ''a/'') = Inr r \<and>
        lookup_path r [''a''] =
          Some (Node ''a'' (Some ''/assets/img/folder.png'')
                  (Some (''2024-01-02 03:04:05'', [])) [Node ''b'' (Some ''/assets/img/file-ext-generic.png'')
           (Some (''2024-01-02 03:04:05'', [])) []]) \<and>
        count_nodes r = 3)"
proof -
  let ?root = "Node ''archive.zip'' (Some ''/assets/img/file-ext-zip.png'') None
                 [Node ''a'' None None [Node ''b'' (Some ''/assets/img/file-ext-generic.png'')
           (Some (''2024-01-02 03:04:05'', [])) []]]"
  have h1: "path_segments (filename (example_entry ''a/'')) \<noteq> []"
    by (simp add: example_entry_def ex_segments)
  have h2: "lookup_path ?root (path_segments (filename (example_entry ''a/''))) =
              Some (Node ''a'' None None [Node ''b'' (Some ''/assets/img/file-ext-generic.png'')
           (Some (''2024-01-02 03:04:05'', [])) []])"
    by (simp add: example_entry_def ex_segments)
  from existing_path_entry [OF h1 h2, of example_renderer] h1 h2 show ?thesis
    by (simp add: example_entry_def ex_segments ex_date ex_sel update_node_with_attributes_def
        numeral_3_eq_3)
qed

subsection \<open>C3: the sanitizer\<close>

text \<open>
  C3. \<^verbatim>\<open>sanitize_obj_list\<close> returns the entries of its input, in their order, that are
  not junk: an entry is dropped if and only if its path starts with \<^verbatim>\<open>__MACOSX/\<close>, is
  \<^verbatim>\<open>.DS_Store\<close> or ends with \<^verbatim>\<open>/.DS_Store\<close>. It is a total function of its input, and
  the empty list is mapped to the empty list.
\<close>

theorem sanitize_is_filter:
  "sanitize_obj_list objs = filter (\<lambda>obj. \<not> junk (filename obj)) objs \<and>
   subseq (sanitize_obj_list objs) objs \<and>
   sanitize_obj_list [] = []"
  by (simp add: sanitize_obj_list_def sanitize_loop_filter)

theorem sanitize_is_filter_witness:
  "sanitize_obj_list (map example_entry
      [''__MACOSX/foo.txt'', ''a/.DS_Storex'', ''.DS_Store'', ''a/b/.DS_Store'', ''notmacosx/foo''])
   = map example_entry [''a/.DS_Storex'', ''notmacosx/foo'']"
  using sanitize_is_filter [of "map example_entry
      [''__MACOSX/foo.txt'', ''a/.DS_Storex'', ''.DS_Store'', ''a/b/.DS_Store'', ''notmacosx/foo'']"]
  by (simp add: junk_def example_entry_def suffix_def prefix_def)

subsection \<open>C4: entries without segments\<close>

text \<open>
  C4 claims that every entry whose path has no segment, the empty path among them, is
  skipped without failure. For the empty path the code raises \<^verbatim>\<open>IndexError\<close> when it
  reads the last character, whereas the list without that entry gives the bare root.
\<close>

theorem empty_path_raises:
  "obj_list_to_tree self [obj\<lparr>filename := []\<rparr>] = Inl IndexError \<and>
   obj_list_to_tree self [] = Inr [tree_root0 self]"
  by (simp add: obj_list_to_tree_def add_obj_def)

subsection \<open>C5: sibling uniqueness\<close>

text \<open>
  C5. In every tree that \<^verbatim>\<open>obj_list_to_tree\<close> returns, the texts of the children of any
  node are pairwise different. For the two entries \<^verbatim>\<open>a/\<close> and \<^verbatim>\<open>a/\<close> the root has exactly
  one child, with the text \<^verbatim>\<open>a\<close>.
\<close>

theorem sibling_labels_unique:
  "(obj_list_to_tree self objs = Inr t \<longrightarrow> list_all uniq t) \<and>
   obj_list_to_tree self [obj1\<lparr>filename := ''a/''\<rparr>, obj2\<lparr>filename := ''a/''\<rparr>] =
     Inr [Node (metadata_name self @ metadata_ext self)
            (Some (assets_url self @ ''/img/file-ext-zip.png'')) None
            [Node ''a'' (Some (assets_url self @ ''/img/folder.png''))
               (Some (format_date (date_time obj2),
                      if file_size obj2 = 0 then [] else sizeof_fmt self (file_size obj2)))
               []]]"
proof
  show "obj_list_to_tree self objs = Inr t \<longrightarrow> list_all uniq t"
  proof
    assume "obj_list_to_tree self objs = Inr t"
    then obtain r where r: "add_objs self (tree_root0 self) objs = Inr r" and t: "t = [r]"
      by (auto simp: tree_result)
    have "uniq (tree_root0 self)" by (simp add: tree_root0_def)
    with r have "uniq r" by (rule add_objs_uniq)
    with t show "list_all uniq t" by simp
  qed
next
  show "obj_list_to_tree self [obj1\<lparr>filename := ''a/''\<rparr>, obj2\<lparr>filename := ''a/''\<rparr>] =
     Inr [Node (metadata_name self @ metadata_ext self)
            (Some (assets_url self @ ''/img/file-ext-zip.png'')) None
            [Node ''a'' (Some (assets_url self @ ''/img/folder.png''))
               (Some (format_date (date_time obj2),
                      if file_size obj2 = 0 then [] else sizeof_fmt self (file_size obj2)))
               []]]"
    by (simp add: obj_list_to_tree_def tree_root0_def add_obj_def ex_segments
        update_node_with_attributes_def set_children_def)
qed

theorem sibling_labels_unique_witness:
  "obj_list_to_tree example_renderer
     [example_entry ''a/'', example_entry ''a/b.txt'', example_entry ''a/''] =
     Inr [Node ''archive.zip'' (Some ''/assets/img/file-ext-zip.png'') None
            [Node ''a'' (Some ''/assets/img/folder.png'') (Some (''2024-01-02 03:04:05'', []))
               [Node ''b.txt'' (Some ''/assets/img/file-ext-generic.png'')
                  (Some (''2024-01-02 03:04:05'', [])) []]]] \<and>
   list_all uniq
     [Node ''archive.zip'' (Some ''/assets/img/file-ext-zip.png'') None
            [Node ''a'' (Some ''/assets/img/folder.png'') (Some (''2024-01-02 03:04:05'', []))
               [Node ''b.txt'' (Some ''/assets/img/file-ext-generic.png'')
                  (Some (''2024-01-02 03:04:05'', [])) []]]]"
proof -
  let ?t = "[Node ''archive.zip'' (Some ''/assets/img/file-ext-zip.png'') None
            [Node ''a'' (Some ''/assets/img/folder.png'') (Some (''2024-01-02 03:04:05'', []))
               [Node ''b.txt'' (Some ''/assets/img/file-ext-generic.png'')
                  (Some (''2024-01-02 03:04:05'', [])) []]]]"
  have h: "obj_list_to_tree example_renderer
     [example_entry ''a/'', example_entry ''a/b.txt'', example_entry ''a/''] = Inr ?t"
    by (simp add: ex_eval)
  from sibling_labels_unique [of example_renderer _ ?t] h have "list_all uniq ?t"
    by blast
  with h show ?thesis by blast
qed

subsection \<open>C6: the icon\<close>

text \<open>
  C6, as claimed: for a file the extension is the lower-cased text behind the last dot of
  the final segment. The code takes the extension from \<^verbatim>\<open>os.path.splitext\<close>, for which the
  leading dots of a name do not start an extension: the file \<^verbatim>\<open>.zip\<close> has the empty
  extension and gets the generic icon, where the claim gives it the icon of \<^verbatim>\<open>zip\<close>.
\<close>

theorem leading_dot_icon_counterexample:
  "icon (update_node_with_attributes example_renderer (Node ''.zip'' None None [])
           (example_entry ''.zip'') False) =
     Some ''/assets/img/file-ext-generic.png'' \<and>
   claimed_icon_path example_renderer (last (path_segments ''.zip'')) False =
     ''/assets/img/file-ext-zip.png''"
proof
  show "icon (update_node_with_attributes example_renderer (Node ''.zip'' None None [])
           (example_entry ''.zip'') False) = Some ''/assets/img/file-ext-generic.png''"
    by (simp add: update_node_with_attributes_def ex_ext ex_icons ex_sel example_entry_def)
next
  have "claimed_extension ''.zip'' = ''zip''"
    by (simp add: claimed_extension_def after_last_def lower_def lower_char_def)
  then show "claimed_icon_path example_renderer (last (path_segments ''.zip'')) False =
     ''/assets/img/file-ext-zip.png''"
    by (simp add: claimed_icon_path_def ex_segments ex_icons ex_sel)
qed

text \<open>
  C6, amended: a folder gets the folder icon. A file gets the icon of its extension exactly
  when \<^verbatim>\<open>icon_exists\<close> holds for the extension, and the generic icon otherwise, where the
  extension is the lower-cased text behind the last dot of the final segment if some
  character of the segment before that dot is not a dot, and empty otherwise (no dot, or
  nothing but dots before the last dot). Where the segment has such a character the
  extension is the claimed one. \<^verbatim>\<open>icon_exists\<close> does not depend on the case of the letters.
\<close>

theorem icon_resolution:
  "icon (update_node_with_attributes self node obj True) =
     Some (assets_url self @ ''/img/folder.png'') \<and>
   (filename obj \<noteq> [] \<and> last (filename obj) \<noteq> CHR ''/'' \<longrightarrow>
      icon (update_node_with_attributes self node obj False) =
        Some (if icon_exists self (extension (last (path_segments (filename obj))))
              then assets_url self @ ''/img/file-ext-'' @
                   extension (last (path_segments (filename obj))) @ ''.png''
              else assets_url self @ ''/img/file-ext-generic.png'')) \<and>
   (list_ex (\<lambda>x. x \<noteq> CHR ''.'') (before_last CHR ''.'' segment) \<longrightarrow>
      extension segment = claimed_extension segment) \<and>
   (CHR ''.'' \<notin> set segment \<longrightarrow> extension segment = [] \<and> claimed_extension segment = []) \<and>
   (lower e1 = lower e2 \<longrightarrow> icon_exists self e1 = icon_exists self e2) \<and>
   icon_exists self (lower e1) = icon_exists self e1"
proof (intro conjI impI)
  show "icon (update_node_with_attributes self node obj True) =
          Some (assets_url self @ ''/img/folder.png'')"
    by (simp add: update_node_with_attributes_def)
next
  assume "filename obj \<noteq> [] \<and> last (filename obj) \<noteq> CHR ''/''"
  then have "lower (lstrip_dot (snd (splitext (filename obj)))) =
               extension (last (path_segments (filename obj)))"
    by (simp add: code_extension)
  then show "icon (update_node_with_attributes self node obj False) =
        Some (if icon_exists self (extension (last (path_segments (filename obj))))
              then assets_url self @ ''/img/file-ext-'' @
                   extension (last (path_segments (filename obj))) @ ''.png''
              else assets_url self @ ''/img/file-ext-generic.png'')"
    by (simp add: update_node_with_attributes_def)
next
  assume "list_ex (\<lambda>x. x \<noteq> CHR ''.'') (before_last CHR ''.'' segment)"
  then show "extension segment = claimed_extension segment"
    by (simp add: extension_def claimed_extension_def)
next
  assume "CHR ''.'' \<notin> set segment"
  then show "extension segment = []" and "claimed_extension segment = []"
    by (simp_all add: extension_def claimed_extension_def)
next
  assume "lower e1 = lower e2"
  then show "icon_exists self e1 = icon_exists self e2"
    by (simp add: icon_exists_def)
next
  show "icon_exists self (lower e1) = icon_exists self e1"
    by (simp add: icon_exists_def lower_idem)
qed

theorem icon_resolution_witness:
  "filename (example_entry ''c/d.ZIP'') \<noteq> [] \<and>
   last (filename (example_entry ''c/d.ZIP'')) \<noteq> CHR ''/'' \<and>
   list_ex (\<lambda>x. x \<noteq> CHR ''.'') (before_last CHR ''.'' ''d.ZIP'') \<and>
   CHR ''.'' \<notin> set ''README'' \<and>
   lower ''ZIP'' = lower ''Zip'' \<and>
   icon (update_node_with_attributes example_renderer (Node ''d.ZIP'' None None [])
           (example_entry ''c/d.ZIP'') False) = Some ''/assets/img/file-ext-zip.png'' \<and>
   extension ''d.ZIP'' = claimed_extension ''d.ZIP'' \<and>
   extension ''README'' = [] \<and>
   icon_exists example_renderer ''ZIP'' = icon_exists example_renderer ''Zip''"
proof -
  have h1: "filename (example_entry ''c/d.ZIP'') \<noteq> [] \<and>
            last (filename (example_entry ''c/d.ZIP'')) \<noteq> CHR ''/''"
    by (simp add: example_entry_def)
  have h2: "list_ex (\<lambda>x. x \<noteq> CHR ''.'') (before_last CHR ''.'' ''d.ZIP'')"
    by (simp add: before_last_def)
  have h3: "CHR ''.'' \<notin> set ''README''" by simp
  have h4: "lower ''ZIP'' = lower ''Zip''"
    by (simp add: lower_def lower_char_def)
  have ext: "extension ''d.ZIP'' = ''zip''"
    by (simp add: extension_def before_last_def after_last_def lower_def lower_char_def)
  note a = icon_resolution [of example_renderer "Node ''d.ZIP'' None None []"
      "example_entry ''c/d.ZIP''" "''d.ZIP''" "''ZIP''" "''Zip''"]
  note b = icon_resolution [of example_renderer "Node ''d.ZIP'' None None []"
      "example_entry ''c/d.ZIP''" "''README''" "''ZIP''" "''Zip''"]
  from a h1 have "icon (update_node_with_attributes example_renderer (Node ''d.ZIP'' None None [])
           (example_entry ''c/d.ZIP'') False) = Some ''/assets/img/file-ext-zip.png''"
    by (simp add: example_entry_def ex_segments ext ex_icons ex_sel)
  moreover from a h2 have "extension ''d.ZIP'' = claimed_extension ''d.ZIP''" by blast
  moreover from b h3 have "extension ''README'' = []" by blast
  moreover from a h4 have "icon_exists example_renderer ''ZIP'' = icon_exists example_renderer ''Zip''"
    by blast
  ultimately show ?thesis using h1 h2 h3 h4 by blast
qed

subsection \<open>C7: one root\<close>




subsection \<open>C8: date and size\<close>

text \<open>
  C8. The \<^verbatim>\<open>'data'\<close> of an updated node holds the date written as four digits of the
  year, two digits each of month, day, hour, minute and second, in the shape
  \<^verbatim>\<open>YYYY-MM-DD HH:MM:SS\<close>, and the size text, which is empty exactly when the size is 0 and
  the result of \<^verbatim>\<open>sizeof_fmt\<close> otherwise. The year has four digits and the other fields at
  most two; every time stamp of a zip archive (years 1980 to 2107) is of this kind.
\<close>

theorem date_and_size_text:
  assumes "date_time obj = (y, mo, d, h, mi, s)"
    and "1000 \<le> y" "y \<le> 9999"
    and "0 \<le> mo" "mo \<le> 99" and "0 \<le> d" "d \<le> 99"
    and "0 \<le> h" "h \<le> 99" and "0 \<le> mi" "mi \<le> 99" and "0 \<le> s" "s \<le> 99"
  shows "data (update_node_with_attributes self node obj is_folder) =
           Some (four_digits y @ ''-'' @ two_digits mo @ ''-'' @ two_digits d @ '' '' @
                 two_digits h @ '':'' @ two_digits mi @ '':'' @ two_digits s,
                 if file_size obj = 0 then [] else sizeof_fmt self (file_size obj))"
  using assms
  by (simp add: format_date_def fmt_02d_two_digits fmt_d_four_digits)

theorem date_and_size_text_witness:
  "data (update_node_with_attributes example_renderer (Node ''f'' None None [])
           \<lparr>filename = ''f'', date_time = (1980, 12, 31, 23, 59, 58), file_size = 1024\<rparr> False) =
     Some (''1980-12-31 23:59:58'', ''1024B'') \<and>
   data (update_node_with_attributes example_renderer (Node ''a'' None None [])
           (example_entry ''a/'') True) =
     Some (''2024-01-02 03:04:05'', [])"
proof -
  have a: "data (update_node_with_attributes example_renderer (Node ''f'' None None [])
           \<lparr>filename = ''f'', date_time = (1980, 12, 31, 23, 59, 58), file_size = 1024\<rparr> False) =
     Some (''1980-12-31 23:59:58'', ''1024B'')"
    using date_and_size_text [of
        "\<lparr>filename = ''f'', date_time = (1980, 12, 31, 23, 59, 58), file_size = 1024\<rparr>"
        1980 12 31 23 59 58 example_renderer "Node ''f'' None None []" False]
    by (simp add: four_digits_def two_digits_def digit_char_def example_renderer_def fmt_d_def
        str_nat.simps)
  have b: "data (update_node_with_attributes example_renderer (Node ''a'' None None [])
           (example_entry ''a/'') True) = Some (''2024-01-02 03:04:05'', [])"
    using date_and_size_text [of "example_entry ''a/''" 2024 1 2 3 4 5 example_renderer
        "Node ''a'' None None []" True]
    by (simp add: four_digits_def two_digits_def digit_char_def example_entry_def)
  from a b show ?thesis by blast
qed

subsection \<open>C9: where metadata is present\<close>




subsection \<open>C10: a file entry, then a folder entry with the same segments\<close>

text \<open>
  C10. Let a file entry and a later folder entry have the same path segments, as \<^verbatim>\<open>a\<close>
  and \<^verbatim>\<open>a/\<close>. The build of the two does not fail. After the first entry the path leads to
  a node with the file's attributes; after the second it leads to the same place, now with
  the folder icon and the date and size of the folder entry, and the tree has as many nodes
  as before: it is the tree of the folder entry alone. With further entries before the
  file entry and between the two: if the build up to the folder entry has not failed, the
  folder entry does not make it fail, the path of the two leads to a node before and
  after it, that node keeps its text and its children and gets the folder icon and the date and
  size of the folder entry, and the number of nodes stays the same.
\<close>

theorem file_then_folder:
  assumes "filename f \<noteq> []" and "last (filename f) \<noteq> CHR ''/''"
    and "filename g \<noteq> []" and "last (filename g) = CHR ''/''"
    and "path_segments (filename g) = path_segments (filename f)"
  shows "(\<exists>before root.
           obj_list_to_tree self [f] = Inr [before] \<and>
           lookup_path before (path_segments (filename f)) =
             Some (update_node_with_attributes self
                     (Node (last (path_segments (filename f))) None None []) f False) \<and>
           obj_list_to_tree self [f, g] = Inr [root] \<and>
           obj_list_to_tree self [g] = Inr [root] \<and>
           lookup_path root (path_segments (filename f)) =
             Some (Node (last (path_segments (filename f)))
                     (Some (assets_url self @ ''/img/folder.png''))
                     (Some (format_date (date_time g),
                            if file_size g \<noteq> 0 then sizeof_fmt self (file_size g) else []))
                     []) \<and>
           count_nodes root = count_nodes before) \<and>
         (obj_list_to_tree self (pre @ f # mid) = Inr [r] \<longrightarrow>
            (\<exists>n r'. lookup_path r (path_segments (filename f)) = Some n \<and>
               obj_list_to_tree self (pre @ f # mid @ [g]) = Inr [r'] \<and>
               lookup_path r' (path_segments (filename f)) =
                 Some (Node (node_text n) (Some (assets_url self @ ''/img/folder.png''))
                         (Some (format_date (date_time g),
                                if file_size g \<noteq> 0 then sizeof_fmt self (file_size g) else []))
                         (children n)) \<and>
               count_nodes r' = count_nodes r))"
proof (intro conjI impI)
  let ?segs = "path_segments (filename f)"
  let ?before = "set_children (tree_root0 self) [fresh_branch self f False ?segs]"
  let ?root = "set_children (tree_root0 self) [fresh_branch self g True ?segs]"
  from assms(1,2) have ne: "?segs \<noteq> []" by (rule path_segments_file)
  have f: "add_obj self (tree_root0 self) f = Inr ?before"
    using single_entry_tree [OF assms(1) ne] assms(2) by simp
  have g: "add_obj self (tree_root0 self) g = Inr ?root"
    using single_entry_tree [of g self] assms(3,4,5) ne by simp
  have fg: "add_obj self ?before g = Inr ?root"
    using walk_over_branch [OF ne, of ?before self f False g] assms(3,4,5)
    by (simp add: add_obj_def set_children_def)
  have l1: "lookup_path ?before ?segs =
      Some (update_node_with_attributes self (Node (last ?segs) None None []) f False)"
    by (rule lookup_fresh_branch [OF ne]) simp
  have l2: "lookup_path ?root ?segs =
      Some (update_node_with_attributes self (Node (last ?segs) None None []) g True)"
    by (rule lookup_fresh_branch [OF ne]) simp
  have c: "count_nodes ?root = count_nodes ?before"
    by (simp add: count_nodes_eq [of "set_children _ _"] count_fresh_branch [OF ne])
  show "\<exists>before root.
           obj_list_to_tree self [f] = Inr [before] \<and>
           lookup_path before ?segs =
             Some (update_node_with_attributes self (Node (last ?segs) None None []) f False) \<and>
           obj_list_to_tree self [f, g] = Inr [root] \<and>
           obj_list_to_tree self [g] = Inr [root] \<and>
           lookup_path root ?segs =
             Some (Node (last ?segs)
                     (Some (assets_url self @ ''/img/folder.png''))
                     (Some (format_date (date_time g),
                            if file_size g \<noteq> 0 then sizeof_fmt self (file_size g) else []))
                     []) \<and>
           count_nodes root = count_nodes before"
    using f g fg l1 l2 c
    by (simp add: obj_list_to_tree_def update_node_with_attributes_def)
next
  assume "obj_list_to_tree self (pre @ f # mid) = Inr [r]"
  moreover from assms(1,2) have "path_segments (filename f) \<noteq> []"
    by (rule path_segments_file)
  ultimately show "\<exists>n r'. lookup_path r (path_segments (filename f)) = Some n \<and>
               obj_list_to_tree self (pre @ f # mid @ [g]) = Inr [r'] \<and>
               lookup_path r' (path_segments (filename f)) =
                 Some (Node (node_text n) (Some (assets_url self @ ''/img/folder.png''))
                         (Some (format_date (date_time g),
                                if file_size g \<noteq> 0 then sizeof_fmt self (file_size g) else []))
                         (children n)) \<and>
               count_nodes r' = count_nodes r"
    using folder_after_entries [OF assms(3,4,5), of self pre mid r] by simp
qed

theorem file_then_folder_witness:
  "filename (example_entry ''a'') \<noteq> [] \<and> last (filename (example_entry ''a'')) \<noteq> CHR ''/'' \<and>
   filename (example_entry ''a/'') \<noteq> [] \<and> last (filename (example_entry ''a/'')) = CHR ''/'' \<and>
   path_segments (filename (example_entry ''a/'')) = path_segments (filename (example_entry ''a'')) \<and>
   obj_list_to_tree example_renderer [example_entry ''a''] =
     Inr [Node ''archive.zip'' (Some ''/assets/img/file-ext-zip.png'') None
            [Node ''a'' (Some ''/assets/img/file-ext-generic.png'')
               (Some (''2024-01-02 03:04:05'', [])) []]] \<and>
   obj_list_to_tree example_renderer [example_entry ''a'', example_entry ''a/''] =
     Inr [Node ''archive.zip'' (Some ''/assets/img/file-ext-zip.png'') None
            [Node ''a'' (Some ''/assets/img/folder.png'')
               (Some (''2024-01-02 03:04:05'', [])) []]] \<and>
   obj_list_to_tree example_renderer
     [example_entry ''x/'', example_entry ''a'', example_entry ''a/b'', example_entry ''a/''] =
     Inr [Node ''archive.zip'' (Some ''/assets/img/file-ext-zip.png'') None
            [Node ''x'' (Some ''/assets/img/folder.png'') (Some (''2024-01-02 03:04:05'', [])) [],
             Node ''a'' (Some ''/assets/img/folder.png'') (Some (''2024-01-02 03:04:05'', []))
               [Node ''b'' (Some ''/assets/img/file-ext-generic.png'')
                  (Some (''2024-01-02 03:04:05'', [])) []]]]"
proof -
  have h1: "filename (example_entry ''a'') \<noteq> []"
    and h2: "last (filename (example_entry ''a'')) \<noteq> CHR ''/''"
    and h3: "filename (example_entry ''a/'') \<noteq> []"
    and h4: "last (filename (example_entry ''a/'')) = CHR ''/''"
    and h5: "path_segments (filename (example_entry ''a/'')) =
             path_segments (filename (example_entry ''a''))"
    by (simp_all add: example_entry_def ex_segments)
  have h6: "obj_list_to_tree example_renderer
      ([example_entry ''x/''] @ example_entry ''a'' # [example_entry ''a/b'']) =
     Inr [Node ''archive.zip'' (Some ''/assets/img/file-ext-zip.png'') None
            [Node ''x'' (Some ''/assets/img/folder.png'') (Some (''2024-01-02 03:04:05'', [])) [],
             Node ''a'' (Some ''/assets/img/file-ext-generic.png'')
               (Some (''2024-01-02 03:04:05'', []))
               [Node ''b'' (Some ''/assets/img/file-ext-generic.png'')
                  (Some (''2024-01-02 03:04:05'', [])) []]]]"
    by (simp add: ex_eval)
  note inst = file_then_folder [OF h1 h2 h3 h4 h5, of example_renderer "[example_entry ''x/'']"
      "[example_entry ''a/b'']"]
  from inst obtain before root where
    "obj_list_to_tree example_renderer [example_entry ''a''] = Inr [before]"
    and r: "obj_list_to_tree example_renderer [example_entry ''a'', example_entry ''a/''] =
            Inr [root]"
    and g: "obj_list_to_tree example_renderer [example_entry ''a/''] = Inr [root]"
    by blast
  from inst h6 obtain r' where
    r': "obj_list_to_tree example_renderer
          ([example_entry ''x/''] @ example_entry ''a'' # [example_entry ''a/b''] @
           [example_entry ''a/'']) = Inr [r']"
    by blast
  have a: "obj_list_to_tree example_renderer [example_entry ''a''] =
     Inr [Node ''archive.zip'' (Some ''/assets/img/file-ext-zip.png'') None
            [Node ''a'' (Some ''/assets/img/file-ext-generic.png'')
               (Some (''2024-01-02 03:04:05'', [])) []]]"
    by (simp add: ex_eval)
  have b: "obj_list_to_tree example_renderer [example_entry ''a/''] =
     Inr [Node ''archive.zip'' (Some ''/assets/img/file-ext-zip.png'') None
            [Node ''a'' (Some ''/assets/img/folder.png'')
               (Some (''2024-01-02 03:04:05'', [])) []]]"
    by (simp add: ex_eval)
  have c: "obj_list_to_tree example_renderer
     [example_entry ''x/'', example_entry ''a'', example_entry ''a/b'', example_entry ''a/''] =
     Inr [Node ''archive.zip'' (Some ''/assets/img/file-ext-zip.png'') None
            [Node ''x'' (Some ''/assets/img/folder.png'') (Some (''2024-01-02 03:04:05'', [])) [],
             Node ''a'' (Some ''/assets/img/folder.png'') (Some (''2024-01-02 03:04:05'', []))
               [Node ''b'' (Some ''/assets/img/file-ext-generic.png'')
                  (Some (''2024-01-02 03:04:05'', [])) []]]]"
    by (simp add: ex_eval)
  from a b c r g h1 h2 h3 h4 h5 show ?thesis by simp
qed

end
